theory Spec2Isabelle
  imports Main
begin

section \<open>The command-line parser of pixl (src/cli/cli\_parser.h)\<close>

text \<open>
  The parser keeps pointers to argument and subcommand objects that the embedding
  application owns, and writes the value of a matched argument into the shared object.
  The model therefore has an explicit store: an address is a natural number, the
  argument objects live in a map from addresses to \<open>CliArg\<close> records, the subcommand
  objects in a map from addresses to \<open>CliSubcommand\<close> records. Every registered
  pointer is taken to point to a live object (a null or dangling pointer in a registry
  is undefined behaviour of the C++ program, not a path of the parser).
\<close>

subsection \<open>Data\<close>

type_synonym addr = nat

text \<open>\<open>struct CliArg\<close> (lines 24-33).\<close>

record CliArg =
  name :: string
  description :: string
  param :: string
  hasParam :: bool
  required :: bool

text \<open>
  \<open>class CliSubcommand\<close> (lines 40-57). Its members \<open>name\<close> and \<open>args\<close> are the
  fields \<open>sub_name\<close> and \<open>sub_args\<close>: a record field name is global in HOL, and
  \<open>name\<close> and \<open>args\<close> are taken by \<open>CliArg\<close> and \<open>CliParser\<close>.
\<close>

record CliSubcommand =
  sub_name :: string
  sub_args :: "addr list"

text \<open>
  \<open>struct CliParserResult\<close> (lines 61-77); the member \<open>args\<close> is the field
  \<open>res_args\<close>, the pointer \<open>subcommand\<close> is \<open>None\<close> for \<open>nullptr\<close>.
\<close>

record CliParserResult =
  errorMessage :: string
  res_args :: "addr list"
  subcommand :: "addr option"

text \<open>The private members of \<open>class CliParser\<close> (lines 116-117).\<close>

record CliParser =
  subcommands :: "addr list"
  args :: "addr list"

type_synonym arg_heap = "addr \<Rightarrow> CliArg"
type_synonym sub_heap = "addr \<Rightarrow> CliSubcommand"

subsection \<open>Constructors and registration\<close>

definition CliArg_new :: "string \<Rightarrow> string \<Rightarrow> bool \<Rightarrow> bool \<Rightarrow> CliArg" where
  "CliArg_new n d hp rq =
     \<lparr>name = n, description = d, param = [], hasParam = hp, required = rq\<rparr>"

definition CliSubcommand_new :: "string \<Rightarrow> CliSubcommand" where
  "CliSubcommand_new n = \<lparr>sub_name = n, sub_args = []\<rparr>"

definition CliSubcommand_addArg :: "CliSubcommand \<Rightarrow> addr \<Rightarrow> CliSubcommand" where
  "CliSubcommand_addArg c arg = c\<lparr>sub_args := sub_args c @ [arg]\<rparr>"

definition CliParserResult_new :: CliParserResult where
  "CliParserResult_new = \<lparr>errorMessage = [], res_args = [], subcommand = None\<rparr>"

definition CliParser_new :: CliParser where
  "CliParser_new = \<lparr>subcommands = [], args = []\<rparr>"

definition addSubcommand :: "CliParser \<Rightarrow> addr \<Rightarrow> CliParser" where
  "addSubcommand p sub = p\<lparr>subcommands := subcommands p @ [sub]\<rparr>"

definition addArg :: "CliParser \<Rightarrow> addr \<Rightarrow> CliParser" where
  "addArg p arg = p\<lparr>args := args p @ [arg]\<rparr>"

subsection \<open>Lookups\<close>

text \<open>
  \<open>CliParserResult::getArgument\<close> (lines 66-72), \<open>CliParser::getSubcommand\<close>
  (lines 120-126) and \<open>CliParser::getArgument\<close> (lines 129-135): the first element
  of the vector whose name equals the given one, \<open>None\<close> for \<open>nullptr\<close>.
\<close>

definition result_getArgument :: "CliParserResult \<Rightarrow> string \<Rightarrow> arg_heap \<Rightarrow> addr option" where
  "result_getArgument r n h = find (\<lambda>a. name (h a) = n) (res_args r)"

definition getSubcommand :: "sub_heap \<Rightarrow> CliParser \<Rightarrow> string \<Rightarrow> addr option" where
  "getSubcommand sh p n = find (\<lambda>c. sub_name (sh c) = n) (subcommands p)"

definition getArgument :: "CliParser \<Rightarrow> string \<Rightarrow> arg_heap \<Rightarrow> addr option" where
  "getArgument p n h = find (\<lambda>a. name (h a) = n) (args p)"

subsection \<open>Tokens\<close>

text \<open>
  A token is a C string. \<open>argv[i][0] == '-'\<close> reads the terminating NUL of an empty
  token, which is not \<open>'-'\<close>; \<open>argv[i] + 1\<close> is the token without its first
  character. (A C string holds no NUL character; nothing below depends on it.)
\<close>

definition dash :: "string \<Rightarrow> bool" where
  "dash t = (case t of [] \<Rightarrow> False | c # _ \<Rightarrow> c = CHR ''-'')"

subsection \<open>Matching one flag\<close>

text \<open>\<open>CliParser::processFlag\<close> (lines 195-209); it leaves the argument objects alone.\<close>

definition processFlag ::
  "CliParser \<Rightarrow> string \<Rightarrow> CliParserResult \<Rightarrow> arg_heap \<Rightarrow> bool \<times> CliParserResult" where
  "processFlag p n r h =
     (case getArgument p n h of
        Some arg \<Rightarrow>
          if hasParam (h arg)
          then (False, r\<lparr>errorMessage := ''Argument '' @ n @ '' must have a parameter''\<rparr>)
          else (True, r\<lparr>res_args := res_args r @ [arg]\<rparr>)
      | None \<Rightarrow> (False, r\<lparr>errorMessage := ''Unkown argument '' @ n\<rparr>))"

text \<open>
  \<open>CliParser::processArgument\<close> (lines 213-228); \<open>arg->param = value\<close> writes into
  the shared object.
\<close>

definition processArgument ::
  "CliParser \<Rightarrow> string \<Rightarrow> string \<Rightarrow> CliParserResult \<Rightarrow> arg_heap
     \<Rightarrow> bool \<times> CliParserResult \<times> arg_heap" where
  "processArgument p n v r h =
     (case getArgument p n h of
        Some arg \<Rightarrow>
          if \<not> hasParam (h arg)
          then (False, r\<lparr>errorMessage := ''Argument '' @ n @ '' can not have a parameter''\<rparr>, h)
          else (True, r\<lparr>res_args := res_args r @ [arg]\<rparr>, h(arg := (h arg)\<lparr>param := v\<rparr>))
      | None \<Rightarrow> (False, r\<lparr>errorMessage := ''Unkown argument '' @ n\<rparr>, h))"

subsection \<open>The scan\<close>

text \<open>
  The \<open>while\<close> loop of \<open>CliParser::processArguments\<close> (lines 154-177), as a
  recursion on the tokens from index \<open>i\<close> on: \<open>i + 2 <= argc\<close> says that two tokens
  are left.
\<close>

fun processArguments_loop ::
  "CliParser \<Rightarrow> string list \<Rightarrow> CliParserResult \<Rightarrow> arg_heap
     \<Rightarrow> bool \<times> CliParserResult \<times> arg_heap" where
  "processArguments_loop p [] r h = (True, r, h)"
| "processArguments_loop p [t] r h =
     (if dash t then
        (case processFlag p (tl t) r h of
           (ok, r') \<Rightarrow> if \<not> ok then (False, r', h) else processArguments_loop p [] r' h)
      else (False, r\<lparr>errorMessage := ''Weird input''\<rparr>, h))"
| "processArguments_loop p (t # u # ts) r h =
     (if dash t \<and> \<not> dash u then
        (case processArgument p (tl t) u r h of
           (ok, r', h') \<Rightarrow> if \<not> ok then (False, r', h') else processArguments_loop p ts r' h')
      else if dash t then
        (case processFlag p (tl t) r h of
           (ok, r') \<Rightarrow> if \<not> ok then (False, r', h) else processArguments_loop p (u # ts) r' h)
      else (False, r\<lparr>errorMessage := ''Weird input''\<rparr>, h))"

text \<open>The \<open>for\<close> loop over \<open>this->args\<close> (lines 180-188), on the arguments still to check.\<close>

fun processArguments_required ::
  "addr list \<Rightarrow> CliParserResult \<Rightarrow> arg_heap \<Rightarrow> bool \<times> CliParserResult" where
  "processArguments_required [] r h = (True, r)"
| "processArguments_required (arg # rest) r h =
     (if \<not> required (h arg) then processArguments_required rest r h
      else if result_getArgument r (name (h arg)) h = None
      then (False, r\<lparr>errorMessage := ''Missing required argument: '' @ name (h arg)\<rparr>)
      else processArguments_required rest r h)"

text \<open>\<open>CliParser::processArguments\<close> (lines 152-191).\<close>

definition processArguments ::
  "CliParser \<Rightarrow> string list \<Rightarrow> CliParserResult \<Rightarrow> arg_heap
     \<Rightarrow> bool \<times> CliParserResult \<times> arg_heap" where
  "processArguments p toks r h =
     (case processArguments_loop p toks r h of
        (ok, r', h') \<Rightarrow>
          if \<not> ok then (False, r', h')
          else (case processArguments_required (args p) r' h' of (ok', r'') \<Rightarrow> (ok', r'', h')))"

subsection \<open>Subcommands and the entry point\<close>

text \<open>
  \<open>CliParser::processSubcommand\<close> (lines 138-148). It dereferences
  \<open>result.subcommand\<close>; \<open>None\<close> is the dereference of a null pointer. It replaces the
  parser's own argument vector by the subcommand's.
\<close>

definition processSubcommand ::
  "sub_heap \<Rightarrow> string list \<Rightarrow> CliParser \<Rightarrow> CliParserResult \<Rightarrow> arg_heap
     \<Rightarrow> (bool \<times> CliParser \<times> CliParserResult \<times> arg_heap) option" where
  "processSubcommand sh toks p r h =
     (case subcommand r of
        None \<Rightarrow> None
      | Some cmd \<Rightarrow>
          (let p' = p\<lparr>args := [] @ sub_args (sh cmd)\<rparr> in
           case processArguments p' toks r h of (ok, r', h') \<Rightarrow> Some (ok, p', r', h')))"

text \<open>
  \<open>CliParser::parse\<close> (lines 98-113). \<open>argv\<close> is the whole argument vector, program
  name included, and \<open>argc\<close> its length. The result is \<open>None\<close> when a null pointer
  is dereferenced, otherwise the returned flag with the parser, the caller's result
  object and the argument objects as the call leaves them.
\<close>

definition parse ::
  "sub_heap \<Rightarrow> string list \<Rightarrow> CliParser \<Rightarrow> CliParserResult \<Rightarrow> arg_heap
     \<Rightarrow> (bool \<times> CliParser \<times> CliParserResult \<times> arg_heap) option" where
  "parse sh argv p r h =
     (if length argv < 2 then Some (False, p, r\<lparr>errorMessage := ''No args''\<rparr>, h)
      else
        (case getSubcommand sh p (argv ! 1) of
           Some sub \<Rightarrow> processSubcommand sh (drop 2 argv) p (r\<lparr>subcommand := Some sub\<rparr>) h
         | None \<Rightarrow>
             (case processArguments p (drop 1 argv) r h of
                (ok, r', h') \<Rightarrow> Some (ok, p, r', h'))))"

text \<open>
  The parser, the tokens and the result object with which \<open>parse\<close> reaches
  \<open>processArguments\<close>: through \<open>processSubcommand\<close> (lines 107-108 and 144-147) when
  \<open>argv[1]\<close> names a subcommand, directly (line 112) otherwise.
\<close>

definition dispatch ::
  "sub_heap \<Rightarrow> string list \<Rightarrow> CliParser \<Rightarrow> CliParserResult
     \<Rightarrow> CliParser \<times> string list \<times> CliParserResult" where
  "dispatch sh argv p r =
     (case getSubcommand sh p (argv ! 1) of
        Some sub \<Rightarrow> (p\<lparr>args := sub_args (sh sub)\<rparr>, drop 2 argv, r\<lparr>subcommand := Some sub\<rparr>)
      | None \<Rightarrow> (p, drop 1 argv, r))"

subsection \<open>What the scan never changes\<close>

text \<open>
  Two stores hold the same specifications when their objects differ at most in the
  \<open>param\<close> member, the only member \<open>processArgument\<close> writes.
\<close>

definition same_specs :: "arg_heap \<Rightarrow> arg_heap \<Rightarrow> bool" where
  "same_specs h g = (\<forall>a. (h a)\<lparr>param := []\<rparr> = (g a)\<lparr>param := []\<rparr>)"

subsection \<open>The place where a call fails\<close>

text \<open>
  With the tokens \<open>pre\<close> scanned and the tokens \<open>suf\<close> left, the call fails before
  it matches anything more. Either no token is left and the loop over the required
  arguments (lines 180-188) fails; or the first token of \<open>suf\<close> is the loop's current
  token (it is not the value of the last token of \<open>pre\<close>) and the branch of the loop
  body that it takes (line 156, line 165 or line 173) returns false.
\<close>

definition scan_stops ::
  "CliParser \<Rightarrow> string list \<Rightarrow> string list \<Rightarrow> CliParserResult \<Rightarrow> arg_heap \<Rightarrow> bool" where
  "scan_stops p pre suf r h =
     (case suf of
        [] \<Rightarrow> \<not> fst (processArguments_required (args p) r h)
      | t # rest \<Rightarrow>
          (pre = [] \<or> dash t \<or> \<not> dash (last pre)) \<and>
          (if rest \<noteq> [] \<and> dash t \<and> \<not> dash (hd rest)
           then \<not> fst (processArgument p (tl t) (hd rest) r h)
           else if dash t then \<not> fst (processFlag p (tl t) r h)
           else True))"

subsection \<open>A small application\<close>

text \<open>
  An application with two top-level arguments, \<open>out\<close> (takes a value, required) at
  address 1 and \<open>verbose\<close> (no value) at address 2, and a subcommand \<open>resize\<close> at
  address 10 with one argument \<open>width\<close> (takes a value) at address 3.
\<close>

definition demo_args :: arg_heap where
  "demo_args =
     (\<lambda>_. CliArg_new [] [] False False)
       (1 := CliArg_new ''out'' ''output file'' True True,
        2 := CliArg_new ''verbose'' ''more output'' False False,
        3 := CliArg_new ''width'' ''new width'' True False)"

definition demo_subs :: sub_heap where
  "demo_subs =
     (\<lambda>_. CliSubcommand_new [])
       (10 := CliSubcommand_addArg (CliSubcommand_new ''resize'') 3)"

definition demo_parser :: CliParser where
  "demo_parser = addSubcommand (addArg (addArg CliParser_new 1) 2) 10"

section \<open>Basic facts\<close>

subsection \<open>The entry point and the two matching functions\<close>

lemma parse_dispatch:
  "2 \<le> length argv \<Longrightarrow>
   parse sh argv p r h =
     (case dispatch sh argv p r of
        (p', toks, r0) \<Rightarrow>
          (case processArguments p' toks r0 h of (ok, r', h') \<Rightarrow> Some (ok, p', r', h')))"
  by (simp add: parse_def dispatch_def processSubcommand_def split: option.splits prod.splits)

lemma processFlag_ok:
  "processFlag p n r h = (True, r') \<Longrightarrow>
   \<exists>a. getArgument p n h = Some a \<and> \<not> hasParam (h a) \<and> r' = r\<lparr>res_args := res_args r @ [a]\<rparr>"
  by (auto simp: processFlag_def split: option.splits if_splits)

lemma processFlag_fail:
  "processFlag p n r h = (False, r') \<Longrightarrow> r' = r\<lparr>errorMessage := errorMessage r'\<rparr>"
  by (auto simp: processFlag_def split: option.splits if_splits)

lemma processArgument_ok:
  "processArgument p n v r h = (True, r', h') \<Longrightarrow>
   \<exists>a. getArgument p n h = Some a \<and> hasParam (h a) \<and> r' = r\<lparr>res_args := res_args r @ [a]\<rparr>
       \<and> h' = h(a := (h a)\<lparr>param := v\<rparr>)"
  by (auto simp: processArgument_def split: option.splits if_splits)

lemma processArgument_fail:
  "processArgument p n v r h = (False, r', h') \<Longrightarrow>
   r' = r\<lparr>errorMessage := errorMessage r'\<rparr> \<and> h' = h"
  by (auto simp: processArgument_def split: option.splits if_splits)

text \<open>\<open>parse\<close> never dereferences a null pointer: it always returns.\<close>

lemma parse_defined: "\<exists>ok p' r' h'. parse sh argv p r h = Some (ok, p', r', h')"
proof (cases "length argv < 2")
  case True
  then show ?thesis by (auto simp: parse_def)
next
  case False
  then have "2 \<le> length argv" by simp
  then show ?thesis
    by (auto simp: parse_dispatch split: prod.splits)
qed

subsection \<open>The scan of a prefix of the tokens\<close>

lemma loop_append:
  "processArguments_loop p pre r h = (True, r1, h1) \<Longrightarrow>
   pre = [] \<or> suf = [] \<or> dash (hd suf) \<or> \<not> dash (last pre) \<Longrightarrow>
   processArguments_loop p (pre @ suf) r h = processArguments_loop p suf r1 h1"
proof (induction p pre r h rule: processArguments_loop.induct)
  case (1 p r h)
  then show ?case by simp
next
  case (2 p t r h)
  show ?case
  proof (cases suf)
    case Nil
    with 2 show ?thesis by simp
  next
    case (Cons s ss)
    with 2 show ?thesis
      by (auto split: if_splits prod.splits)
  qed
next
  case (3 p t u ts r h)
  show ?case
  proof (cases "dash t \<and> \<not> dash u")
    case True
    with 3 show ?thesis
      by (auto split: if_splits prod.splits)
  next
    case False
    with 3 show ?thesis
      by (auto split: if_splits prod.splits)
  qed
qed

subsection \<open>Stores that hold the same specifications\<close>

lemma same_specs_fields:
  "same_specs h g \<Longrightarrow>
   name (h a) = name (g a) \<and> description (h a) = description (g a) \<and>
   hasParam (h a) = hasParam (g a) \<and> required (h a) = required (g a)"
proof -
  assume "same_specs h g"
  then have e: "(h a)\<lparr>param := []\<rparr> = (g a)\<lparr>param := []\<rparr>"
    by (simp add: same_specs_def)
  have "name (h a) = name ((h a)\<lparr>param := []\<rparr>)" by simp
  also have "\<dots> = name (g a)" by (simp add: e)
  finally have 1: "name (h a) = name (g a)" .
  have "description (h a) = description ((h a)\<lparr>param := []\<rparr>)" by simp
  also have "\<dots> = description (g a)" by (simp add: e)
  finally have 2: "description (h a) = description (g a)" .
  have "hasParam (h a) = hasParam ((h a)\<lparr>param := []\<rparr>)" by simp
  also have "\<dots> = hasParam (g a)" by (simp add: e)
  finally have 3: "hasParam (h a) = hasParam (g a)" .
  have "required (h a) = required ((h a)\<lparr>param := []\<rparr>)" by simp
  also have "\<dots> = required (g a)" by (simp add: e)
  finally have 4: "required (h a) = required (g a)" .
  from 1 2 3 4 show ?thesis by simp
qed

lemma same_specs_refl: "same_specs h h"
  by (simp add: same_specs_def)

lemma same_specs_sym: "same_specs h g \<Longrightarrow> same_specs g h"
  by (simp add: same_specs_def)

lemma same_specs_trans: "same_specs h g \<Longrightarrow> same_specs g k \<Longrightarrow> same_specs h k"
  by (simp add: same_specs_def)

lemma same_specs_write:
  "same_specs h g \<Longrightarrow> same_specs (h(a := (h a)\<lparr>param := v\<rparr>)) (g(a := (g a)\<lparr>param := w\<rparr>))"
  by (simp add: same_specs_def)

lemma same_specs_param_eq:
  "same_specs h g \<Longrightarrow> param (h a) = param (g a) \<Longrightarrow> h a = g a"
  using same_specs_fields[of h g a] by (simp add: CliArg.equality)

lemma same_specs_names: "same_specs h g \<Longrightarrow> (\<lambda>a. name (h a) = n) = (\<lambda>a. name (g a) = n)"
  using same_specs_fields[of h g] by auto

lemma getArgument_same_specs:
  "same_specs h g \<Longrightarrow> getArgument p n h = getArgument p n g"
  by (simp add: getArgument_def same_specs_names[of h g])

lemma result_getArgument_same_specs:
  "same_specs h g \<Longrightarrow> result_getArgument r n h = result_getArgument r n g"
  by (simp add: result_getArgument_def same_specs_names[of h g])

lemma processFlag_same_specs:
  "same_specs h g \<Longrightarrow> processFlag p n r h = processFlag p n r g"
  using same_specs_fields[of h g]
  by (simp add: processFlag_def getArgument_same_specs[of h g] split: option.splits)

lemma required_same_specs:
  "same_specs h g \<Longrightarrow> processArguments_required as r h = processArguments_required as r g"
proof (induction as)
  case Nil
  then show ?case by simp
next
  case (Cons a as)
  then show ?case
    using same_specs_fields[of h g a] result_getArgument_same_specs[of h g r]
    by simp
qed

lemma processArgument_keeps_specs:
  "processArgument p n v r h = (ok, r', h') \<Longrightarrow> same_specs h h'"
  by (auto simp: processArgument_def same_specs_def split: option.splits if_splits)

lemma loop_same_specs:
  "processArguments_loop p toks r h = (ok, r', h') \<Longrightarrow> same_specs h h'"
proof (induction p toks r h rule: processArguments_loop.induct)
  case (1 p r h)
  then show ?case by (simp add: same_specs_refl)
next
  case (2 p t r h)
  then show ?case by (auto simp: same_specs_refl split: if_splits prod.splits)
next
  case (3 p t u ts r h)
  show ?case
  proof (cases "dash t \<and> \<not> dash u")
    case True
    obtain k r1 h1 where pa: "processArgument p (tl t) u r h = (k, r1, h1)"
      by (cases "processArgument p (tl t) u r h") auto
    then have s1: "same_specs h h1" by (rule processArgument_keeps_specs)
    show ?thesis
    proof (cases k)
      case True
      with 3 pa \<open>dash t \<and> \<not> dash u\<close>
      have "same_specs h1 h'" by auto
      with s1 show ?thesis by (rule same_specs_trans)
    next
      case False
      with pa 3(3) \<open>dash t \<and> \<not> dash u\<close> s1 show ?thesis by simp
    qed
  next
    case False
    with 3 show ?thesis
      by (auto simp: same_specs_refl split: if_splits prod.splits)
  qed
qed

subsection \<open>The scan in two stores that hold the same specifications\<close>

lemma processArgument_same_specs:
  "same_specs h g \<Longrightarrow> processArgument p n v r h = (ok, r', h') \<Longrightarrow>
   \<exists>g'. processArgument p n v r g = (ok, r', g') \<and>
        (\<forall>a. (h' a = h a \<and> g' a = g a) \<or> param (h' a) = param (g' a))"
  using same_specs_fields[of h g]
  by (auto simp: processArgument_def getArgument_same_specs[of h g] split: option.splits if_splits)

lemma loop_sim:
  "same_specs h g \<Longrightarrow> processArguments_loop p toks r h = (ok, r', h') \<Longrightarrow>
   \<exists>g'. processArguments_loop p toks r g = (ok, r', g') \<and>
        (\<forall>a. (h' a = h a \<and> g' a = g a) \<or> param (h' a) = param (g' a))"
proof (induction p toks r h arbitrary: g rule: processArguments_loop.induct)
  case (1 p r h)
  then show ?case by simp
next
  case (2 p t r h)
  then show ?case
    by (auto simp: processFlag_same_specs[of h g] split: if_splits prod.splits)
next
  case (3 p t u ts r h)
  show ?case
  proof (cases "dash t \<and> \<not> dash u")
    case True
    obtain k r1 h1 where pa: "processArgument p (tl t) u r h = (k, r1, h1)"
      by (cases "processArgument p (tl t) u r h") auto
    from processArgument_same_specs[OF "3.prems"(1) pa]
    obtain g1 where pg: "processArgument p (tl t) u r g = (k, r1, g1)"
      and w1: "\<forall>a. (h1 a = h a \<and> g1 a = g a) \<or> param (h1 a) = param (g1 a)"
      by blast
    have s1: "same_specs h1 g1"
      using processArgument_keeps_specs[OF pa] processArgument_keeps_specs[OF pg] "3.prems"(1)
      by (meson same_specs_sym same_specs_trans)
    show ?thesis
    proof (cases k)
      case True
      with "3.prems"(2) pa \<open>dash t \<and> \<not> dash u\<close>
      have l: "processArguments_loop p ts r1 h1 = (ok, r', h')" by simp
      have nn: "\<not> \<not> k" using True by simp
      from "3.IH"(1)[OF \<open>dash t \<and> \<not> dash u\<close> pa[symmetric] refl nn s1 l]
      obtain g' where lg: "processArguments_loop p ts r1 g1 = (ok, r', g')"
        and w2: "\<forall>a. (h' a = h1 a \<and> g' a = g1 a) \<or> param (h' a) = param (g' a)"
        by blast
      have "processArguments_loop p (t # u # ts) r g = (ok, r', g')"
        using pg lg True \<open>dash t \<and> \<not> dash u\<close> by simp
      moreover have "\<forall>a. (h' a = h a \<and> g' a = g a) \<or> param (h' a) = param (g' a)"
      proof
        fix a
        from w1 have "(h1 a = h a \<and> g1 a = g a) \<or> param (h1 a) = param (g1 a)" ..
        moreover from w2 have "(h' a = h1 a \<and> g' a = g1 a) \<or> param (h' a) = param (g' a)" ..
        ultimately show "(h' a = h a \<and> g' a = g a) \<or> param (h' a) = param (g' a)"
          by auto
      qed
      ultimately show ?thesis by blast
    next
      case False
      with pa pg "3.prems"(2) \<open>dash t \<and> \<not> dash u\<close> w1 show ?thesis by auto
    qed
  next
    case False
    show ?thesis
    proof (cases "dash t")
      case True
      obtain k r1 where pf: "processFlag p (tl t) r h = (k, r1)"
        by (cases "processFlag p (tl t) r h") auto
      then have pg: "processFlag p (tl t) r g = (k, r1)"
        using processFlag_same_specs[OF "3.prems"(1)] by simp
      show ?thesis
      proof (cases k)
        case True
        with "3.prems"(2) pf \<open>dash t\<close> \<open>\<not> (dash t \<and> \<not> dash u)\<close>
        have l: "processArguments_loop p (u # ts) r1 h = (ok, r', h')" by simp
        have nn: "\<not> \<not> k" using True by simp
        from "3.IH"(2)[OF \<open>\<not> (dash t \<and> \<not> dash u)\<close> \<open>dash t\<close> pf[symmetric] nn "3.prems"(1) l]
        obtain g' where lg: "processArguments_loop p (u # ts) r1 g = (ok, r', g')"
          and w2: "\<forall>a. (h' a = h a \<and> g' a = g a) \<or> param (h' a) = param (g' a)"
          by blast
        have "processArguments_loop p (t # u # ts) r g = (ok, r', g')"
          using pg lg True \<open>dash t\<close> \<open>\<not> (dash t \<and> \<not> dash u)\<close> by simp
        with w2 show ?thesis by blast
      next
        case False
        with pf pg "3.prems"(2) \<open>dash t\<close> \<open>\<not> (dash t \<and> \<not> dash u)\<close> show ?thesis by auto
      qed
    next
      case False
      with "3.prems"(2) show ?thesis by auto
    qed
  qed
qed

subsection \<open>Running a call again\<close>

lemma loop_again:
  assumes l: "processArguments_loop p toks r h = (ok, r', h')"
  shows "processArguments_loop p toks r h' = (ok, r', h')"
proof -
  have s: "same_specs h h'" using l by (rule loop_same_specs)
  from loop_sim[OF s l] obtain g' where
    lg: "processArguments_loop p toks r h' = (ok, r', g')" and
    w: "\<forall>a. (h' a = h a \<and> g' a = h' a) \<or> param (h' a) = param (g' a)"
    by blast
  have s': "same_specs h' g'" using lg by (rule loop_same_specs)
  have "g' a = h' a" for a
  proof -
    from w have "(h' a = h a \<and> g' a = h' a) \<or> param (h' a) = param (g' a)" ..
    then show ?thesis
    proof
      assume "h' a = h a \<and> g' a = h' a"
      then show ?thesis by simp
    next
      assume "param (h' a) = param (g' a)"
      with s' show ?thesis by (simp add: same_specs_param_eq)
    qed
  qed
  then have "g' = h'" by (rule ext)
  with lg show ?thesis by simp
qed

lemma processArguments_again:
  assumes l: "processArguments p toks r h = (ok, r', h')"
  shows "processArguments p toks r h' = (ok, r', h')"
proof -
  obtain k r1 h1 where l1: "processArguments_loop p toks r h = (k, r1, h1)"
    by (cases "processArguments_loop p toks r h") auto
  from l l1 have hh: "h' = h1"
    by (auto simp: processArguments_def split: if_splits prod.splits)
  from l1 have l2: "processArguments_loop p toks r h1 = (k, r1, h1)" by (rule loop_again)
  from l l1 l2 hh show ?thesis
    by (simp add: processArguments_def)
qed

lemma getSubcommand_args: "getSubcommand sh (p\<lparr>args := as\<rparr>) n = getSubcommand sh p n"
  by (simp add: getSubcommand_def)

subsection \<open>Evaluating a call\<close>

lemmas run_defs =
  parse_def processSubcommand_def processArguments_def processArgument_def processFlag_def
  getSubcommand_def getArgument_def result_getArgument_def dash_def

lemmas demo_defs =
  demo_args_def demo_subs_def demo_parser_def CliArg_new_def CliSubcommand_new_def
  CliSubcommand_addArg_def CliParserResult_new_def CliParser_new_def addSubcommand_def
  addArg_def

subsection \<open>One step of the scan\<close>

lemma loop_weird:
  "\<not> dash t \<Longrightarrow>
   processArguments_loop p (t # rest) r h = (False, r\<lparr>errorMessage := ''Weird input''\<rparr>, h)"
  by (cases rest) simp_all

lemma loop_bare_flag:
  "dash t \<Longrightarrow> rest = [] \<or> dash (hd rest) \<Longrightarrow>
   processArguments_loop p (t # rest) r h =
     (case processFlag p (tl t) r h of
        (ok, r') \<Rightarrow> if \<not> ok then (False, r', h) else processArguments_loop p rest r' h)"
  by (cases rest) auto

lemma loop_flag_value:
  "dash t \<Longrightarrow> \<not> dash u \<Longrightarrow>
   processArguments_loop p (t # u # rest) r h =
     (case processArgument p (tl t) u r h of
        (ok, r', h') \<Rightarrow> if \<not> ok then (False, r', h') else processArguments_loop p rest r' h')"
  by simp

lemma processArguments_loop_failed:
  "processArguments_loop p toks r h = (False, r', h') \<Longrightarrow>
   processArguments p toks r h = (False, r', h')"
  by (simp add: processArguments_def)

lemma getArgument_SomeD:
  "getArgument p n h = Some a \<Longrightarrow> a \<in> set (args p) \<and> name (h a) = n"
  by (auto simp: getArgument_def find_Some_iff)

subsection \<open>What the scan adds to the result\<close>

lemma processFlag_grows:
  "processFlag p n r h = (ok, r') \<Longrightarrow>
   subcommand r' = subcommand r \<and>
   (\<exists>ms. res_args r' = res_args r @ ms \<and> set ms \<subseteq> set (args p))"
  by (auto simp: processFlag_def split: option.splits if_splits dest: getArgument_SomeD)

lemma processArgument_grows:
  "processArgument p n v r h = (ok, r', h') \<Longrightarrow>
   subcommand r' = subcommand r \<and>
   (\<exists>ms. res_args r' = res_args r @ ms \<and> set ms \<subseteq> set (args p))"
  by (auto simp: processArgument_def split: option.splits if_splits dest: getArgument_SomeD)

lemma grows_trans:
  assumes "subcommand r1 = subcommand r \<and>
      (\<exists>ms. res_args r1 = res_args r @ ms \<and> set ms \<subseteq> A)"
    and "subcommand r2 = subcommand r1 \<and>
      (\<exists>ms. res_args r2 = res_args r1 @ ms \<and> set ms \<subseteq> A)"
  shows "subcommand r2 = subcommand r \<and>
      (\<exists>ms. res_args r2 = res_args r @ ms \<and> set ms \<subseteq> A)"
proof -
  from assms(1) obtain ms where 1: "res_args r1 = res_args r @ ms" "set ms \<subseteq> A" by blast
  from assms(2) obtain ns where 2: "res_args r2 = res_args r1 @ ns" "set ns \<subseteq> A" by blast
  from 1 2 have "res_args r2 = res_args r @ (ms @ ns) \<and> set (ms @ ns) \<subseteq> A" by simp
  then have "\<exists>ks. res_args r2 = res_args r @ ks \<and> set ks \<subseteq> A" by blast
  with assms show ?thesis by simp
qed

lemma loop_grows:
  "processArguments_loop p toks r h = (ok, r', h') \<Longrightarrow>
   subcommand r' = subcommand r \<and>
   (\<exists>ms. res_args r' = res_args r @ ms \<and> set ms \<subseteq> set (args p))"
proof (induction p toks r h rule: processArguments_loop.induct)
  case (1 p r h)
  then show ?case by simp
next
  case (2 p t r h)
  show ?case
  proof (cases "dash t")
    case True
    obtain k r1 where pf: "processFlag p (tl t) r h = (k, r1)"
      by (cases "processFlag p (tl t) r h") auto
    with 2 True have "r' = r1" by (auto split: if_splits)
    with processFlag_grows[OF pf] show ?thesis by simp
  next
    case False
    with 2 show ?thesis by auto
  qed
next
  case (3 p t u ts r h)
  show ?case
  proof (cases "dash t \<and> \<not> dash u")
    case True
    obtain k r1 h1 where pa: "processArgument p (tl t) u r h = (k, r1, h1)"
      by (cases "processArgument p (tl t) u r h") auto
    note g1 = processArgument_grows[OF pa]
    show ?thesis
    proof (cases k)
      case True
      with "3.prems" pa \<open>dash t \<and> \<not> dash u\<close>
      have l: "processArguments_loop p ts r1 h1 = (ok, r', h')" by simp
      have nn: "\<not> \<not> k" using True by simp
      from g1 "3.IH"(1)[OF \<open>dash t \<and> \<not> dash u\<close> pa[symmetric] refl nn l]
      show ?thesis by (rule grows_trans)
    next
      case False
      with "3.prems" pa \<open>dash t \<and> \<not> dash u\<close> have "r' = r1" by simp
      with g1 show ?thesis by simp
    qed
  next
    case nv: False
    show ?thesis
    proof (cases "dash t")
      case True
      obtain k r1 where pf: "processFlag p (tl t) r h = (k, r1)"
        by (cases "processFlag p (tl t) r h") auto
      note g1 = processFlag_grows[OF pf]
      show ?thesis
      proof (cases k)
        case True
        with "3.prems" pf \<open>dash t\<close> nv
        have l: "processArguments_loop p (u # ts) r1 h = (ok, r', h')" by simp
        have nn: "\<not> \<not> k" using True by simp
        from g1 "3.IH"(2)[OF nv \<open>dash t\<close> pf[symmetric] nn l]
        show ?thesis by (rule grows_trans)
      next
        case False
        with "3.prems" pf \<open>dash t\<close> nv have "r' = r1" by simp
        with g1 show ?thesis by simp
      qed
    next
      case False
      with "3.prems" show ?thesis by auto
    qed
  qed
qed

lemma loop_ok_errorMessage:
  "processArguments_loop p toks r h = (True, r', h') \<Longrightarrow> errorMessage r' = errorMessage r"
proof (induction p toks r h rule: processArguments_loop.induct)
  case (1 p r h)
  then show ?case by simp
next
  case (2 p t r h)
  then show ?case
    by (auto split: if_splits prod.splits dest!: processFlag_ok)
next
  case (3 p t u ts r h)
  show ?case
  proof (cases "dash t \<and> \<not> dash u")
    case True
    obtain k r1 h1 where pa: "processArgument p (tl t) u r h = (k, r1, h1)"
      by (cases "processArgument p (tl t) u r h") auto
    with "3.prems" True have k: k and l: "processArguments_loop p ts r1 h1 = (True, r', h')"
      by (auto split: if_splits)
    have nn: "\<not> \<not> k" using k by simp
    from pa k have "errorMessage r1 = errorMessage r"
      by (auto dest!: processArgument_ok)
    with "3.IH"(1)[OF True pa[symmetric] refl nn l] show ?thesis by simp
  next
    case nv: False
    with "3.prems" have d: "dash t" by (auto split: if_splits)
    obtain k r1 where pf: "processFlag p (tl t) r h = (k, r1)"
      by (cases "processFlag p (tl t) r h") auto
    with "3.prems" nv d have k: k and l: "processArguments_loop p (u # ts) r1 h = (True, r', h')"
      by (auto split: if_splits)
    have nn: "\<not> \<not> k" using k by simp
    from pf k have "errorMessage r1 = errorMessage r"
      by (auto dest!: processFlag_ok)
    with "3.IH"(2)[OF nv d pf[symmetric] nn l] show ?thesis by simp
  qed
qed

subsection \<open>The check of the required arguments\<close>

lemma required_find:
  "processArguments_required as r h =
     (case find (\<lambda>a. required (h a) \<and> result_getArgument r (name (h a)) h = None) as of
        None \<Rightarrow> (True, r)
      | Some a \<Rightarrow> (False, r\<lparr>errorMessage := ''Missing required argument: '' @ name (h a)\<rparr>))"
  by (induction as) simp_all

lemma processArguments_find:
  "processArguments_loop p toks r h = (True, r1, h1) \<Longrightarrow>
   processArguments p toks r h =
     (case find (\<lambda>a. required (h1 a) \<and> result_getArgument r1 (name (h1 a)) h1 = None) (args p) of
        None \<Rightarrow> (True, r1, h1)
      | Some a \<Rightarrow>
          (False, r1\<lparr>errorMessage := ''Missing required argument: '' @ name (h1 a)\<rparr>, h1))"
  by (simp add: processArguments_def required_find split: option.splits)

subsection \<open>From the scan to the call\<close>

lemma parse_failing_scan:
  assumes "2 \<le> length argv"
    and "dispatch sh argv p r = (p', toks, ri)"
    and "processArguments_loop p' toks ri h = (False, rf, hf)"
  shows "parse sh argv p r h = Some (False, p', rf, hf)"
  using assms by (simp add: parse_dispatch processArguments_loop_failed)


subsection \<open>Matched by name and matched by identity\<close>

lemma result_getArgument_None_iff:
  "result_getArgument r n h = None \<longleftrightarrow> (\<forall>b \<in> set (res_args r). name (h b) \<noteq> n)"
  by (auto simp: result_getArgument_def find_None_iff)

lemma missing_iff:
  assumes d: "distinct (map (\<lambda>a. name (h a)) as)"
    and sub: "set (res_args r) \<subseteq> set as"
    and a: "a \<in> set as"
  shows "result_getArgument r (name (h a)) h = None \<longleftrightarrow> a \<notin> set (res_args r)"
proof
  assume "result_getArgument r (name (h a)) h = None"
  then show "a \<notin> set (res_args r)"
    by (auto simp: result_getArgument_None_iff)
next
  assume n: "a \<notin> set (res_args r)"
  from d have inj: "inj_on (\<lambda>a. name (h a)) (set as)" by (simp add: distinct_map)
  have "name (h b) \<noteq> name (h a)" if "b \<in> set (res_args r)" for b
  proof
    assume e: "name (h b) = name (h a)"
    from that sub have "b \<in> set as" by blast
    with inj a e have "b = a" by (auto dest: inj_onD)
    with that n show False by simp
  qed
  then show "result_getArgument r (name (h a)) h = None"
    by (simp add: result_getArgument_None_iff)
qed

lemma same_specs_map_name:
  "same_specs h g \<Longrightarrow> map (\<lambda>a. name (h a)) as = map (\<lambda>a. name (g a)) as"
  using same_specs_fields[of h g] by simp

lemma find_skip: "\<forall>x \<in> set xs. \<not> P x \<Longrightarrow> find P (xs @ ys) = find P ys"
  by (induction xs) simp_all

lemma required_all_matched:
  "\<forall>a \<in> set as. required (h a) \<longrightarrow> result_getArgument r (name (h a)) h \<noteq> None \<Longrightarrow>
   processArguments_required as r h = (True, r)"
  by (induction as) auto

subsection \<open>Where a failing scan stops\<close>

lemma scan_stops_Cons_pre:
  "scan_stops p pre suf r h \<Longrightarrow> pre \<noteq> [] \<Longrightarrow> scan_stops p (t # pre) suf r h"
  by (auto simp: scan_stops_def split: list.splits)

lemma loop_failed_at:
  "processArguments_loop p toks r h = (False, rf, hf) \<Longrightarrow>
   \<exists>pre suf rs. toks = pre @ suf \<and> suf \<noteq> [] \<and>
      processArguments_loop p pre r h = (True, rs, hf) \<and>
      scan_stops p pre suf rs hf \<and>
      rf = rs\<lparr>errorMessage := errorMessage rf\<rparr> \<and>
      processArguments_loop p suf rs hf = (False, rf, hf)"
proof (induction p toks r h rule: processArguments_loop.induct)
  case (1 p r h)
  then show ?case by simp
next
  case (2 p t r h)
  have "[t] = [] @ [t] \<and> [t] \<noteq> [] \<and> processArguments_loop p [] r h = (True, r, hf) \<and>
      scan_stops p [] [t] r hf \<and>
      rf = r\<lparr>errorMessage := errorMessage rf\<rparr> \<and>
      processArguments_loop p [t] r hf = (False, rf, hf)"
    using "2.prems"
    by (auto simp: scan_stops_def split: if_splits prod.splits dest: processFlag_fail)
  then show ?case by blast
next
  case (3 p t u ts r h)
  let ?toks = "t # u # ts"
  have stop: ?case
    if "hf = h" and "rf = r\<lparr>errorMessage := errorMessage rf\<rparr>"
      and "scan_stops p [] ?toks r h"
  proof -
    from that "3.prems"
    have "?toks = [] @ ?toks \<and> ?toks \<noteq> [] \<and> processArguments_loop p [] r h = (True, r, hf) \<and>
      scan_stops p [] ?toks r hf \<and>
      rf = r\<lparr>errorMessage := errorMessage rf\<rparr> \<and>
      processArguments_loop p ?toks r hf = (False, rf, hf)"
      by simp
    then show ?thesis by blast
  qed
  show ?case
  proof (cases "dash t \<and> \<not> dash u")
    case True
    obtain k r1 h1 where pa: "processArgument p (tl t) u r h = (k, r1, h1)"
      by (cases "processArgument p (tl t) u r h") auto
    show ?thesis
    proof (cases k)
      case False
      with pa "3.prems" True have "rf = r1" "hf = h1" by simp_all
      with pa False True processArgument_fail[of p "tl t" u r h rf hf]
      show ?thesis by (intro stop) (simp_all add: scan_stops_def)
    next
      case k: True
      with "3.prems" pa True
      have l: "processArguments_loop p ts r1 h1 = (False, rf, hf)" by simp
      have nn: "\<not> \<not> k" using k by simp
      from "3.IH"(1)[OF True pa[symmetric] refl nn l]
      obtain pre suf rs where ps: "ts = pre @ suf" "suf \<noteq> []"
        "processArguments_loop p pre r1 h1 = (True, rs, hf)"
        "scan_stops p pre suf rs hf"
        "rf = rs\<lparr>errorMessage := errorMessage rf\<rparr>"
        "processArguments_loop p suf rs hf = (False, rf, hf)"
        by blast
      from pa k True ps(3)
      have "processArguments_loop p (t # u # pre) r h = (True, rs, hf)" by simp
      moreover have "scan_stops p (t # u # pre) suf rs hf"
      proof (cases pre)
        case Nil
        with ps(4) True show ?thesis
          by (auto simp: scan_stops_def split: list.splits)
      next
        case (Cons x xs)
        with ps(4) show ?thesis by (simp add: scan_stops_Cons_pre)
      qed
      ultimately have "?toks = (t # u # pre) @ suf \<and> suf \<noteq> [] \<and>
        processArguments_loop p (t # u # pre) r h = (True, rs, hf) \<and>
        scan_stops p (t # u # pre) suf rs hf \<and>
        rf = rs\<lparr>errorMessage := errorMessage rf\<rparr> \<and>
        processArguments_loop p suf rs hf = (False, rf, hf)"
        using ps by simp
      then show ?thesis by blast
    qed
  next
    case nv: False
    show ?thesis
    proof (cases "dash t")
      case False
      with "3.prems" show ?thesis by (intro stop) (auto simp: scan_stops_def)
    next
      case d: True
      obtain k r1 where pf: "processFlag p (tl t) r h = (k, r1)"
        by (cases "processFlag p (tl t) r h") auto
      show ?thesis
      proof (cases k)
        case False
        with pf "3.prems" nv d have "rf = r1" "hf = h" by simp_all
        with pf False nv d processFlag_fail[of p "tl t" r h rf]
        show ?thesis by (intro stop) (simp_all add: scan_stops_def)
      next
        case k: True
        with "3.prems" pf nv d
        have l: "processArguments_loop p (u # ts) r1 h = (False, rf, hf)" by simp
        have nn: "\<not> \<not> k" using k by simp
        from "3.IH"(2)[OF nv d pf[symmetric] nn l]
        obtain pre suf rs where ps: "u # ts = pre @ suf" "suf \<noteq> []"
          "processArguments_loop p pre r1 h = (True, rs, hf)"
          "scan_stops p pre suf rs hf"
          "rf = rs\<lparr>errorMessage := errorMessage rf\<rparr>"
          "processArguments_loop p suf rs hf = (False, rf, hf)"
          by blast
        from nv d have du: "dash u" by simp
        have "processArguments_loop p (t # pre) r h = (True, rs, hf) \<and>
              scan_stops p (t # pre) suf rs hf"
        proof (cases pre)
          case Nil
          with ps(1) have "suf = u # ts" by simp
          with Nil ps(3,4) pf k d du show ?thesis
            by (simp add: scan_stops_def)
        next
          case (Cons x xs)
          with ps(1) have "x = u" by simp
          with Cons ps(3,4) pf k d du show ?thesis by (simp add: scan_stops_Cons_pre)
        qed
        with ps have "?toks = (t # pre) @ suf \<and> suf \<noteq> [] \<and>
          processArguments_loop p (t # pre) r h = (True, rs, hf) \<and>
          scan_stops p (t # pre) suf rs hf \<and>
          rf = rs\<lparr>errorMessage := errorMessage rf\<rparr> \<and>
          processArguments_loop p suf rs hf = (False, rf, hf)"
          by simp
        then show ?thesis by blast
      qed
    qed
  qed
qed

lemma scan_stops_fails:
  assumes l: "processArguments_loop p pre r h = (True, rs, hs)"
    and st: "scan_stops p pre suf rs hs"
  shows "\<exists>m. processArguments p (pre @ suf) r h = (False, rs\<lparr>errorMessage := m\<rparr>, hs)"
proof (cases suf)
  case Nil
  with st have "\<not> fst (processArguments_required (args p) rs hs)"
    by (simp add: scan_stops_def)
  then obtain m where "processArguments_required (args p) rs hs =
      (False, rs\<lparr>errorMessage := m\<rparr>)"
    by (auto simp: required_find split: option.splits)
  with l Nil have "processArguments p (pre @ suf) r h = (False, rs\<lparr>errorMessage := m\<rparr>, hs)"
    by (simp add: processArguments_def)
  then show ?thesis by blast
next
  case (Cons t rest)
  with st have al: "pre = [] \<or> suf = [] \<or> dash (hd suf) \<or> \<not> dash (last pre)"
    by (auto simp: scan_stops_def)
  from l al have e: "processArguments_loop p (pre @ suf) r h = processArguments_loop p suf rs hs"
    by (rule loop_append)
  have "\<exists>m. processArguments_loop p (t # rest) rs hs = (False, rs\<lparr>errorMessage := m\<rparr>, hs)"
  proof (cases "rest \<noteq> [] \<and> dash t \<and> \<not> dash (hd rest)")
    case True
    then obtain u us where rest: "rest = u # us" and du: "\<not> dash u" and dt: "dash t"
      by (cases rest) auto
    obtain k r1 h1 where pa: "processArgument p (tl t) u rs hs = (k, r1, h1)"
      by (cases "processArgument p (tl t) u rs hs") auto
    from st Cons True rest pa have "\<not> k" by (simp add: scan_stops_def)
    with pa processArgument_fail[of p "tl t" u rs hs r1 h1]
    have "r1 = rs\<lparr>errorMessage := errorMessage r1\<rparr>" "h1 = hs" by simp_all
    with pa \<open>\<not> k\<close> rest du dt
    have "processArguments_loop p (t # rest) rs hs =
        (False, rs\<lparr>errorMessage := errorMessage r1\<rparr>, hs)"
      by simp
    then show ?thesis by blast
  next
    case nv: False
    show ?thesis
    proof (cases "dash t")
      case True
      from nv True have bare: "rest = [] \<or> dash (hd rest)" by auto
      obtain k r1 where pf: "processFlag p (tl t) rs hs = (k, r1)"
        by (cases "processFlag p (tl t) rs hs") auto
      from st Cons bare True pf have "\<not> k" by (auto simp: scan_stops_def)
      with pf processFlag_fail[of p "tl t" rs hs r1]
      have "r1 = rs\<lparr>errorMessage := errorMessage r1\<rparr>" by simp
      with pf \<open>\<not> k\<close> loop_bare_flag[OF True bare, of p rs hs]
      have "processArguments_loop p (t # rest) rs hs =
          (False, rs\<lparr>errorMessage := errorMessage r1\<rparr>, hs)"
        by simp
      then show ?thesis by blast
    next
      case False
      then have "processArguments_loop p (t # rest) rs hs =
          (False, rs\<lparr>errorMessage := ''Weird input''\<rparr>, hs)"
        by (rule loop_weird)
      then show ?thesis by blast
    qed
  qed
  with e Cons show ?thesis
    by (auto simp: processArguments_loop_failed)
qed

subsection \<open>The message for a name that is not in the active scope\<close>

lemma parse_unknown_flag:
  assumes "2 \<le> length argv"
    and "dispatch sh argv p r = (p', pre @ t # rest, ri)"
    and "processArguments_loop p' pre ri h = (True, rs, hs)"
    and "dash t"
    and "getArgument p' (tl t) h = None"
  shows "parse sh argv p r h =
     Some (False, p', rs\<lparr>errorMessage := ''Unkown argument '' @ tl t\<rparr>, hs)"
proof -
  have s: "same_specs h hs" using assms(3) by (rule loop_same_specs)
  from assms(5) have none: "getArgument p' (tl t) hs = None"
    by (simp add: getArgument_same_specs[OF s])
  from assms(4) have "pre = [] \<or> t # rest = [] \<or> dash (hd (t # rest)) \<or> \<not> dash (last pre)"
    by simp
  with assms(3)
  have step: "processArguments_loop p' (pre @ t # rest) ri h =
      processArguments_loop p' (t # rest) rs hs"
    by (rule loop_append)
  have "processArguments_loop p' (t # rest) rs hs =
      (False, rs\<lparr>errorMessage := ''Unkown argument '' @ tl t\<rparr>, hs)"
  proof (cases "rest = [] \<or> dash (hd rest)")
    case True
    with assms(4) none show ?thesis
      by (simp add: loop_bare_flag processFlag_def)
  next
    case False
    then obtain u us where "rest = u # us" and "\<not> dash u"
      by (cases rest) auto
    with assms(4) none show ?thesis
      by (simp add: processArgument_def)
  qed
  with step have "processArguments_loop p' (pre @ t # rest) ri h =
      (False, rs\<lparr>errorMessage := ''Unkown argument '' @ tl t\<rparr>, hs)"
    by simp
  with assms(1,2) show ?thesis by (rule parse_failing_scan)
qed

section \<open>The claims of the specification\<close>



text \<open>
  Claim C2. Let \<open>out\<close> be registered at top level with a specification that takes a
  value and is required (it is what a lookup of \<open>out\<close> in the parser finds, and the
  only required argument registered there), and let no subcommand be called \<open>-out\<close>.
  With a result object that holds no argument called \<open>out\<close> yet (a new result object
  holds none at all), \<open>parse\<close> of the tokens \<open>-out file.png\<close> returns success, leaves
  the error message as it was, appends the specification to the matched arguments and
  writes the value into it; a lookup of \<open>out\<close> in the result returns this
  specification, and its value is \<open>file.png\<close>.
\<close>

theorem parse_out_file:
  assumes "getArgument p ''out'' h = Some a"
    and "hasParam (h a)"
    and "required (h a)"
    and "\<forall>b \<in> set (args p). required (h b) \<longrightarrow> name (h b) = ''out''"
    and "getSubcommand sh p ''-out'' = None"
    and "\<forall>b \<in> set (res_args r). name (h b) \<noteq> ''out''"
  shows "parse sh [prog, ''-out'', ''file.png''] p r h =
           Some (True, p, r\<lparr>res_args := res_args r @ [a]\<rparr>,
                 h(a := (h a)\<lparr>param := ''file.png''\<rparr>)) \<and>
         result_getArgument (r\<lparr>res_args := res_args r @ [a]\<rparr>) ''out''
           (h(a := (h a)\<lparr>param := ''file.png''\<rparr>)) = Some a \<and>
         param ((h(a := (h a)\<lparr>param := ''file.png''\<rparr>)) a) = ''file.png''"
proof -
  let ?h = "h(a := (h a)\<lparr>param := ''file.png''\<rparr>)"
  let ?r = "r\<lparr>res_args := res_args r @ [a]\<rparr>"
  from assms(1) have na: "name (h a) = ''out''"
    by (simp add: getArgument_SomeD)
  have nm: "name (?h b) = name (h b)" for b by simp
  have rq: "required (?h b) = required (h b)" for b by simp
  have "\<forall>b \<in> set (res_args r). \<not> name (?h b) = ''out''"
    using assms(6) by (simp only: nm) 
  then have "find (\<lambda>b. name (?h b) = ''out'') (res_args r @ [a]) =
      find (\<lambda>b. name (?h b) = ''out'') [a]"
    by (rule find_skip)
  then have look: "result_getArgument ?r ''out'' ?h = Some a"
    using na by (simp add: result_getArgument_def)
  have "processArgument p ''out'' ''file.png'' r h = (True, ?r, ?h)"
    using assms(1,2) by (simp add: processArgument_def)
  then have loop: "processArguments_loop p [''-out'', ''file.png''] r h = (True, ?r, ?h)"
    by (simp add: dash_def)
  have "processArguments_required (args p) ?r ?h = (True, ?r)"
  proof (rule required_all_matched, intro ballI impI)
    fix b assume b: "b \<in> set (args p)" and "required (?h b)"
    then have "required (h b)" by (simp only: rq)
    with assms(4) b have "name (h b) = ''out''" by blast
    then have "name (?h b) = ''out''" by (simp only: nm)
    with look show "result_getArgument ?r (name (?h b)) ?h \<noteq> None" by simp
  qed
  with loop have "processArguments p [''-out'', ''file.png''] r h = (True, ?r, ?h)"
    by (simp add: processArguments_def)
  with assms(5) have "parse sh [prog, ''-out'', ''file.png''] p r h = Some (True, p, ?r, ?h)"
    by (simp add: parse_def)
  with look show ?thesis by simp
qed

theorem parse_out_file_witness:
  "parse demo_subs [''pixl'', ''-out'', ''file.png''] demo_parser CliParserResult_new demo_args =
     Some (True, demo_parser, CliParserResult_new\<lparr>res_args := [1]\<rparr>,
           demo_args(1 := (demo_args 1)\<lparr>param := ''file.png''\<rparr>)) \<and>
   errorMessage (CliParserResult_new\<lparr>res_args := [1]\<rparr>) = [] \<and>
   result_getArgument (CliParserResult_new\<lparr>res_args := [1]\<rparr>) ''out''
     (demo_args(1 := (demo_args 1)\<lparr>param := ''file.png''\<rparr>)) = Some 1 \<and>
   param ((demo_args(1 := (demo_args 1)\<lparr>param := ''file.png''\<rparr>)) 1) = ''file.png''"
  using parse_out_file[where sh = demo_subs and p = demo_parser and r = CliParserResult_new
      and h = demo_args and a = 1 and prog = "''pixl''"]
  by (simp add: run_defs demo_defs)

text \<open>
  Claim C3, as stated, fails: a flag that takes no value and is followed by a value is
  rejected with "Argument <name> can not have a parameter", not with "Argument <name>
  must have a parameter" (the message of \<open>processFlag\<close> for the opposite mismatch).
\<close>

theorem value_for_plain_flag_counterexample:
  "parse demo_subs [''pixl'', ''-verbose'', ''yes''] demo_parser CliParserResult_new demo_args =
     Some (False, demo_parser,
           CliParserResult_new\<lparr>errorMessage := ''Argument verbose can not have a parameter''\<rparr>,
           demo_args) \<and>
   ''Argument verbose can not have a parameter'' \<noteq> ''Argument verbose must have a parameter''"
  by (simp add: run_defs demo_defs)

text \<open>
  Claim C3, amended. When the scan has gone through the tokens \<open>pre\<close> without error,
  the next token starts with \<open>'-'\<close> and is followed by a token that does not, and its
  name is found in the active scope with a specification that takes no value,
  \<open>parse\<close> fails with "Argument <name> can not have a parameter"; the value is not
  recorded.
\<close>

theorem parse_value_for_plain_flag:
  assumes "2 \<le> length argv"
    and "dispatch sh argv p r = (p', pre @ t # u # rest, ri)"
    and "processArguments_loop p' pre ri h = (True, rs, hs)"
    and "dash t"
    and "\<not> dash u"
    and "getArgument p' (tl t) h = Some a"
    and "\<not> hasParam (h a)"
  shows "parse sh argv p r h =
     Some (False, p', rs\<lparr>errorMessage := ''Argument '' @ tl t @ '' can not have a parameter''\<rparr>, hs)"
proof -
  have s: "same_specs h hs" using assms(3) by (rule loop_same_specs)
  from assms(4)
  have "pre = [] \<or> t # u # rest = [] \<or> dash (hd (t # u # rest)) \<or> \<not> dash (last pre)"
    by simp
  with assms(3)
  have "processArguments_loop p' (pre @ t # u # rest) ri h =
        processArguments_loop p' (t # u # rest) rs hs"
    by (rule loop_append)
  also have "\<dots> =
      (case processArgument p' (tl t) u rs hs of
         (ok, r', h') \<Rightarrow> if \<not> ok then (False, r', h') else processArguments_loop p' rest r' h')"
    using assms(4,5) by (rule loop_flag_value)
  also have "processArgument p' (tl t) u rs hs =
      (False, rs\<lparr>errorMessage := ''Argument '' @ tl t @ '' can not have a parameter''\<rparr>, hs)"
    using assms(6,7) same_specs_fields[OF s, of a]
    by (simp add: processArgument_def getArgument_same_specs[OF s, symmetric])
  finally have "processArguments_loop p' (pre @ t # u # rest) ri h =
      (False, rs\<lparr>errorMessage := ''Argument '' @ tl t @ '' can not have a parameter''\<rparr>, hs)"
    by simp
  with assms(1,2) show ?thesis by (rule parse_failing_scan)
qed

theorem parse_value_for_plain_flag_witness:
  "parse demo_subs [''pixl'', ''-out'', ''a.png'', ''-verbose'', ''yes'', ''-out''] demo_parser
     CliParserResult_new demo_args =
   Some (False, demo_parser,
         CliParserResult_new
           \<lparr>res_args := [1], errorMessage := ''Argument verbose can not have a parameter''\<rparr>,
         demo_args(1 := (demo_args 1)\<lparr>param := ''a.png''\<rparr>))"
  using parse_value_for_plain_flag[where sh = demo_subs and p = demo_parser
      and r = CliParserResult_new and h = demo_args
      and argv = "[''pixl'', ''-out'', ''a.png'', ''-verbose'', ''yes'', ''-out'']"
      and p' = demo_parser and pre = "[''-out'', ''a.png'']" and t = "''-verbose''"
      and u = "''yes''" and rest = "[''-out'']" and ri = CliParserResult_new
      and rs = "CliParserResult_new\<lparr>res_args := [1]\<rparr>"
      and hs = "demo_args(1 := (demo_args 1)\<lparr>param := ''a.png''\<rparr>)" and a = 2]
  by (simp add: dispatch_def run_defs demo_defs)

text \<open>
  Claim C4, as stated, fails: \<open>processSubcommand\<close> clears the parser's argument vector
  and fills it with the subcommand's arguments, and nothing puts the former content
  back. After a subcommand-style call the parser holds the subcommand's arguments.
\<close>

theorem parse_restores_args_counterexample:
  "parse demo_subs [''pixl'', ''resize''] demo_parser CliParserResult_new demo_args =
     Some (True, demo_parser\<lparr>args := [3]\<rparr>,
           CliParserResult_new\<lparr>subcommand := Some 10\<rparr>, demo_args) \<and>
   args demo_parser = [1, 2] \<and>
   args (demo_parser\<lparr>args := [3]\<rparr>) \<noteq> args demo_parser"
  by (simp add: run_defs demo_defs)

text \<open>
  Claim C4, amended. The replacement is permanent: after a call of \<open>parse\<close> whose first
  token names a registered subcommand, the parser's argument set is that subcommand's
  argument set, whether the call succeeded or not; after any other call, a call with no
  token included, it is what it was before. No call of \<open>parse\<close> changes the registered
  subcommands.
\<close>

theorem parse_leaves_parser:
  assumes "parse sh argv p r h = Some (ok, p', r', h')"
  shows "subcommands p' = subcommands p \<and>
    args p' = (if length argv < 2 then args p
               else (case getSubcommand sh p (argv ! 1) of
                       Some sub \<Rightarrow> sub_args (sh sub)
                     | None \<Rightarrow> args p))"
proof (cases "length argv < 2")
  case True
  with assms show ?thesis by (auto simp: parse_def)
next
  case False
  then have "2 \<le> length argv" by simp
  with assms False show ?thesis
    by (auto simp: parse_dispatch dispatch_def split: option.splits prod.splits)
qed

theorem parse_leaves_parser_witness:
  "parse demo_subs [''pixl'', ''resize'', ''-width'', ''30''] demo_parser CliParserResult_new
     demo_args =
     Some (True, demo_parser\<lparr>args := [3]\<rparr>,
           CliParserResult_new\<lparr>res_args := [3], subcommand := Some 10\<rparr>,
           demo_args(3 := (demo_args 3)\<lparr>param := ''30''\<rparr>)) \<and>
   subcommands (demo_parser\<lparr>args := [3]\<rparr>) = subcommands demo_parser \<and>
   args (demo_parser\<lparr>args := [3]\<rparr>) = sub_args (demo_subs 10)"
proof -
  have run: "parse demo_subs [''pixl'', ''resize'', ''-width'', ''30''] demo_parser
      CliParserResult_new demo_args =
     Some (True, demo_parser\<lparr>args := [3]\<rparr>,
           CliParserResult_new\<lparr>res_args := [3], subcommand := Some 10\<rparr>,
           demo_args(3 := (demo_args 3)\<lparr>param := ''30''\<rparr>))"
    by (simp add: run_defs demo_defs)
  have sub: "getSubcommand demo_subs demo_parser ''resize'' = Some 10"
    by (simp add: run_defs demo_defs)
  from parse_leaves_parser[OF run] sub run show ?thesis by simp
qed

text \<open>
  Claim C5. Parsing the same argument vector a second time, with the parser and the
  argument objects as the first call left them and a result object equal to the one
  the first call was given, returns the same flag and leaves the same parser, the same
  result (subcommand reference, matched arguments in order, error message) and the same
  argument objects, hence the same recorded values.
\<close>

theorem parse_idempotent:
  assumes "parse sh argv p r h = Some (ok, p1, r1, h1)"
  shows "parse sh argv p1 r h1 = Some (ok, p1, r1, h1)"
proof (cases "length argv < 2")
  case True
  with assms show ?thesis by (auto simp: parse_def)
next
  case False
  show ?thesis
  proof (cases "getSubcommand sh p (argv ! 1)")
    case None
    with assms False have p1: "p1 = p"
      and pa: "processArguments p (drop 1 argv) r h = (ok, r1, h1)"
      by (auto simp: parse_def split: prod.splits)
    from pa have "processArguments p (drop 1 argv) r h1 = (ok, r1, h1)"
      by (rule processArguments_again)
    with None False p1 show ?thesis by (simp add: parse_def)
  next
    case (Some c)
    let ?p = "p\<lparr>args := sub_args (sh c)\<rparr>"
    from assms False Some have p1: "p1 = ?p"
      and pa: "processArguments ?p (drop 2 argv) (r\<lparr>subcommand := Some c\<rparr>) h = (ok, r1, h1)"
      by (auto simp: parse_def processSubcommand_def Let_def split: prod.splits)
    from pa have "processArguments ?p (drop 2 argv) (r\<lparr>subcommand := Some c\<rparr>) h1 = (ok, r1, h1)"
      by (rule processArguments_again)
    with Some False p1 show ?thesis
      by (simp add: parse_def processSubcommand_def getSubcommand_args)
  qed
qed

theorem parse_idempotent_witness:
  "parse demo_subs [''pixl'', ''resize'', ''-width'', ''30''] demo_parser CliParserResult_new
     demo_args =
   Some (True, demo_parser\<lparr>args := [3]\<rparr>,
         CliParserResult_new\<lparr>res_args := [3], subcommand := Some 10\<rparr>,
         demo_args(3 := (demo_args 3)\<lparr>param := ''30''\<rparr>)) \<and>
   parse demo_subs [''pixl'', ''resize'', ''-width'', ''30''] (demo_parser\<lparr>args := [3]\<rparr>)
     CliParserResult_new (demo_args(3 := (demo_args 3)\<lparr>param := ''30''\<rparr>)) =
   Some (True, demo_parser\<lparr>args := [3]\<rparr>,
         CliParserResult_new\<lparr>res_args := [3], subcommand := Some 10\<rparr>,
         demo_args(3 := (demo_args 3)\<lparr>param := ''30''\<rparr>))"
proof -
  have first:
    "parse demo_subs [''pixl'', ''resize'', ''-width'', ''30''] demo_parser CliParserResult_new
       demo_args =
     Some (True, demo_parser\<lparr>args := [3]\<rparr>,
           CliParserResult_new\<lparr>res_args := [3], subcommand := Some 10\<rparr>,
           demo_args(3 := (demo_args 3)\<lparr>param := ''30''\<rparr>))"
    by (simp add: run_defs demo_defs)
  from first parse_idempotent[OF first] show ?thesis by simp
qed

text \<open>
  Claim C6. The code misspells the message: for a flag whose name is not in the active
  scope, bare or followed by a value, \<open>parse\<close> fails with "Unkown argument <name>",
  where the claim has "Unknown argument <name>".
\<close>

theorem parse_unknown_argument_message:
  "parse demo_subs [''pixl'', ''-unknown''] demo_parser CliParserResult_new demo_args =
     Some (False, demo_parser,
           CliParserResult_new\<lparr>errorMessage := ''Unkown argument unknown''\<rparr>, demo_args) \<and>
   parse demo_subs [''pixl'', ''-unknown'', ''x''] demo_parser CliParserResult_new demo_args =
     Some (False, demo_parser,
           CliParserResult_new\<lparr>errorMessage := ''Unkown argument unknown''\<rparr>, demo_args) \<and>
   ''Unkown argument unknown'' \<noteq> ''Unknown argument unknown''"
  by (simp add: run_defs demo_defs)

text \<open>
  Claim C7. When the scan has gone through the tokens \<open>pre\<close> without error and the
  next token starts with \<open>'-'\<close>, is the last token or is followed by a token that
  starts with \<open>'-'\<close>, and names an argument of the active scope that takes a value,
  \<open>parse\<close> fails with "Argument <name> must have a parameter". The result keeps the
  matches of \<open>pre\<close> only and no argument object is written: the following token is
  not taken as a value.
\<close>

theorem parse_flag_without_value:
  assumes "2 \<le> length argv"
    and "dispatch sh argv p r = (p', pre @ t # rest, ri)"
    and "processArguments_loop p' pre ri h = (True, rs, hs)"
    and "dash t"
    and "rest = [] \<or> dash (hd rest)"
    and "getArgument p' (tl t) h = Some a"
    and "hasParam (h a)"
  shows "parse sh argv p r h =
     Some (False, p', rs\<lparr>errorMessage := ''Argument '' @ tl t @ '' must have a parameter''\<rparr>, hs)"
proof -
  have s: "same_specs h hs" using assms(3) by (rule loop_same_specs)
  from assms(4) have "pre = [] \<or> t # rest = [] \<or> dash (hd (t # rest)) \<or> \<not> dash (last pre)"
    by simp
  with assms(3)
  have "processArguments_loop p' (pre @ t # rest) ri h = processArguments_loop p' (t # rest) rs hs"
    by (rule loop_append)
  also have "\<dots> =
      (case processFlag p' (tl t) rs hs of
         (ok, r') \<Rightarrow> if \<not> ok then (False, r', hs) else processArguments_loop p' rest r' hs)"
    using assms(4,5) by (rule loop_bare_flag)
  also have "processFlag p' (tl t) rs hs =
      (False, rs\<lparr>errorMessage := ''Argument '' @ tl t @ '' must have a parameter''\<rparr>)"
    using assms(6,7) same_specs_fields[OF s, of a]
    by (simp add: processFlag_def getArgument_same_specs[OF s, symmetric])
  finally have "processArguments_loop p' (pre @ t # rest) ri h =
      (False, rs\<lparr>errorMessage := ''Argument '' @ tl t @ '' must have a parameter''\<rparr>, hs)"
    by simp
  with assms(1,2) show ?thesis by (rule parse_failing_scan)
qed

theorem parse_flag_without_value_witness:
  "parse demo_subs [''pixl'', ''-verbose'', ''-out'', ''-verbose''] demo_parser
     CliParserResult_new demo_args =
   Some (False, demo_parser,
         CliParserResult_new
           \<lparr>res_args := [2], errorMessage := ''Argument out must have a parameter''\<rparr>,
         demo_args)"
  using parse_flag_without_value[where sh = demo_subs and p = demo_parser
      and r = CliParserResult_new and h = demo_args
      and argv = "[''pixl'', ''-verbose'', ''-out'', ''-verbose'']"
      and p' = demo_parser and pre = "[''-verbose'']" and t = "''-out''"
      and rest = "[''-verbose'']" and ri = CliParserResult_new
      and rs = "CliParserResult_new\<lparr>res_args := [2]\<rparr>" and hs = demo_args and a = 1]
  by (simp add: dispatch_def run_defs demo_defs)

text \<open>
  Claim C8. When the scan of the tokens completes without error, \<open>parse\<close> succeeds if
  every required argument of the active scope is among the matched arguments of the
  result, and otherwise fails with "Missing required argument: <name>" for the first
  required argument of the active scope, in declaration order, that is not among them.
  The active scope is the parser's argument set as \<open>dispatch\<close> leaves it: the
  subcommand's arguments once a subcommand is chosen, so that the top-level arguments
  are not checked then. The names of the active scope are distinct, and the result
  object comes in with no argument from outside the active scope (a new result object
  holds none at all), so that an argument is among the matched ones exactly when the
  lookup of its name in the result finds one.
\<close>

theorem parse_required_check:
  assumes "2 \<le> length argv"
    and "dispatch sh argv p r = (p', toks, ri)"
    and "set (res_args r) \<subseteq> set (args p')"
    and "distinct (map (\<lambda>a. name (h a)) (args p'))"
    and "processArguments_loop p' toks ri h = (True, rs, hs)"
  shows "parse sh argv p r h =
     Some (case find (\<lambda>a. required (h a) \<and> a \<notin> set (res_args rs)) (args p') of
             None \<Rightarrow> (True, p', rs, hs)
           | Some a \<Rightarrow>
               (False, p',
                rs\<lparr>errorMessage := ''Missing required argument: '' @ name (h a)\<rparr>, hs))"
proof -
  have s: "same_specs h hs" using assms(5) by (rule loop_same_specs)
  from assms(2) have "res_args ri = res_args r"
    by (auto simp: dispatch_def split: option.splits)
  with assms(3) loop_grows[OF assms(5)] have sub: "set (res_args rs) \<subseteq> set (args p')"
    by auto
  from assms(4) have d: "distinct (map (\<lambda>a. name (hs a)) (args p'))"
    by (simp add: same_specs_map_name[OF s])
  have "find (\<lambda>a. required (hs a) \<and> result_getArgument rs (name (hs a)) hs = None) (args p') =
        find (\<lambda>a. required (h a) \<and> a \<notin> set (res_args rs)) (args p')"
  proof (rule find_cong[OF refl])
    fix a assume "a \<in> set (args p')"
    with d sub have "result_getArgument rs (name (hs a)) hs = None \<longleftrightarrow> a \<notin> set (res_args rs)"
      by (rule missing_iff)
    with same_specs_fields[OF s, of a]
    show "(required (hs a) \<and> result_getArgument rs (name (hs a)) hs = None) =
          (required (h a) \<and> a \<notin> set (res_args rs))"
      by simp
  qed
  with processArguments_find[OF assms(5)] same_specs_fields[OF s]
  have "processArguments p' toks ri h =
     (case find (\<lambda>a. required (h a) \<and> a \<notin> set (res_args rs)) (args p') of
        None \<Rightarrow> (True, rs, hs)
      | Some a \<Rightarrow>
          (False, rs\<lparr>errorMessage := ''Missing required argument: '' @ name (h a)\<rparr>, hs))"
    by (simp split: option.splits)
  with assms(1,2) show ?thesis
    by (simp add: parse_dispatch split: option.splits)
qed


theorem parse_required_check_witness:
  "parse demo_subs [''pixl'', ''resize'', ''-width'', ''30''] demo_parser CliParserResult_new
     demo_args =
     Some (True, demo_parser\<lparr>args := [3]\<rparr>,
           CliParserResult_new\<lparr>res_args := [3], subcommand := Some 10\<rparr>,
           demo_args(3 := (demo_args 3)\<lparr>param := ''30''\<rparr>)) \<and>
   parse demo_subs [''pixl'', ''-verbose''] demo_parser CliParserResult_new demo_args =
     Some (False, demo_parser,
           CliParserResult_new
             \<lparr>res_args := [2], errorMessage := ''Missing required argument: out''\<rparr>,
           demo_args)"
  using parse_required_check[where sh = demo_subs and p = demo_parser
      and r = CliParserResult_new and h = demo_args
      and argv = "[''pixl'', ''resize'', ''-width'', ''30'']"
      and p' = "demo_parser\<lparr>args := [3]\<rparr>" and toks = "[''-width'', ''30'']"
      and ri = "CliParserResult_new\<lparr>subcommand := Some 10\<rparr>"
      and rs = "CliParserResult_new\<lparr>res_args := [3], subcommand := Some 10\<rparr>"
      and hs = "demo_args(3 := (demo_args 3)\<lparr>param := ''30''\<rparr>)"]
    parse_required_check[where sh = demo_subs and p = demo_parser
      and r = CliParserResult_new and h = demo_args
      and argv = "[''pixl'', ''-verbose'']"
      and p' = demo_parser and toks = "[''-verbose'']"
      and ri = CliParserResult_new
      and rs = "CliParserResult_new\<lparr>res_args := [2]\<rparr>"
      and hs = demo_args]
  by (simp add: dispatch_def run_defs demo_defs)

text \<open>
  Claim C9. When the scan has gone through the tokens \<open>pre\<close> without error and the
  next token does not start with \<open>'-'\<close> (it is the first scanned token, or the token
  before it does not start with \<open>'-'\<close> either, so that it is not the value of a flag),
  \<open>parse\<close> fails with the message "Weird input", whatever follows.
\<close>

theorem parse_weird_input:
  assumes "2 \<le> length argv"
    and "dispatch sh argv p r = (p', pre @ tok # rest, ri)"
    and "processArguments_loop p' pre ri h = (True, rs, hs)"
    and "pre = [] \<or> \<not> dash (last pre)"
    and "\<not> dash tok"
  shows "parse sh argv p r h = Some (False, p', rs\<lparr>errorMessage := ''Weird input''\<rparr>, hs)"
proof -
  from assms(4) have "pre = [] \<or> tok # rest = [] \<or> dash (hd (tok # rest)) \<or> \<not> dash (last pre)"
    by blast
  with assms(3)
  have "processArguments_loop p' (pre @ tok # rest) ri h = processArguments_loop p' (tok # rest) rs hs"
    by (rule loop_append)
  with assms(5)
  have "processArguments_loop p' (pre @ tok # rest) ri h =
        (False, rs\<lparr>errorMessage := ''Weird input''\<rparr>, hs)"
    by (simp add: loop_weird)
  with assms(1,2) show ?thesis by (rule parse_failing_scan)
qed

theorem parse_weird_input_witness:
  "parse demo_subs [''pixl'', ''-out'', ''a.png'', ''b.png'', ''-verbose''] demo_parser
     CliParserResult_new demo_args =
   Some (False, demo_parser,
         CliParserResult_new\<lparr>res_args := [1], errorMessage := ''Weird input''\<rparr>,
         demo_args(1 := (demo_args 1)\<lparr>param := ''a.png''\<rparr>))"
  using parse_weird_input[where sh = demo_subs and p = demo_parser and r = CliParserResult_new
      and h = demo_args and argv = "[''pixl'', ''-out'', ''a.png'', ''b.png'', ''-verbose'']"
      and p' = demo_parser and pre = "[''-out'', ''a.png'']" and tok = "''b.png''"
      and rest = "[''-verbose'']" and ri = CliParserResult_new
      and rs = "CliParserResult_new\<lparr>res_args := [1]\<rparr>"
      and hs = "demo_args(1 := (demo_args 1)\<lparr>param := ''a.png''\<rparr>)"]
  by (simp add: dispatch_def run_defs demo_defs)

text \<open>
  Claim C10. A failed \<open>parse\<close> rolls nothing back. Whenever the scan goes through the
  tokens \<open>pre\<close> without error and the call fails at the next token (or, no token
  being left, at a missing required argument), the call returns false with the result
  of the scan of \<open>pre\<close>, every matched argument included and only the error message
  set, and with the argument objects as that scan left them, every recorded value
  included. Every failed call is of this kind: the tokens before the place of the
  failure are such a \<open>pre\<close>.
\<close>

theorem parse_failure_keeps_progress:
  assumes "2 \<le> length argv"
    and "dispatch sh argv p r = (p', toks, ri)"
  shows "(\<forall>pre suf rs hs.
            toks = pre @ suf \<and>
            processArguments_loop p' pre ri h = (True, rs, hs) \<and>
            scan_stops p' pre suf rs hs \<longrightarrow>
            (\<exists>m. parse sh argv p r h = Some (False, p', rs\<lparr>errorMessage := m\<rparr>, hs))) \<and>
         (\<forall>pf rf hf.
            parse sh argv p r h = Some (False, pf, rf, hf) \<longrightarrow>
            (\<exists>pre suf rs.
               toks = pre @ suf \<and>
               processArguments_loop p' pre ri h = (True, rs, hf) \<and>
               scan_stops p' pre suf rs hf \<and>
               rf = rs\<lparr>errorMessage := errorMessage rf\<rparr> \<and>
               processArguments p' suf rs hf = (False, rf, hf)))"
proof (intro conjI allI impI)
  fix pre suf rs hs
  assume a: "toks = pre @ suf \<and>
            processArguments_loop p' pre ri h = (True, rs, hs) \<and>
            scan_stops p' pre suf rs hs"
  then have "\<exists>m. processArguments p' (pre @ suf) ri h = (False, rs\<lparr>errorMessage := m\<rparr>, hs)"
    by (simp add: scan_stops_fails)
  with a assms show "\<exists>m. parse sh argv p r h = Some (False, p', rs\<lparr>errorMessage := m\<rparr>, hs)"
    by (auto simp: parse_dispatch)
next
  fix pf rf hf
  assume f: "parse sh argv p r h = Some (False, pf, rf, hf)"
  with assms have pa: "processArguments p' toks ri h = (False, rf, hf)"
    by (auto simp: parse_dispatch split: prod.splits)
  obtain k rs hs where l: "processArguments_loop p' toks ri h = (k, rs, hs)"
    by (cases "processArguments_loop p' toks ri h") auto
  show "\<exists>pre suf rs.
               toks = pre @ suf \<and>
               processArguments_loop p' pre ri h = (True, rs, hf) \<and>
               scan_stops p' pre suf rs hf \<and>
               rf = rs\<lparr>errorMessage := errorMessage rf\<rparr> \<and>
               processArguments p' suf rs hf = (False, rf, hf)"
  proof (cases k)
    case True
    with l pa have rq: "processArguments_required (args p') rs hs = (False, rf)" and hh: "hf = hs"
      by (auto simp: processArguments_def split: prod.splits)
    from rq have "rf = rs\<lparr>errorMessage := errorMessage rf\<rparr>"
      by (auto simp: required_find split: option.splits)
    moreover from rq hh have "processArguments p' [] rs hf = (False, rf, hf)"
      by (simp add: processArguments_def)
    moreover from rq hh have "scan_stops p' toks [] rs hf"
      by (simp add: scan_stops_def)
    ultimately have "toks = toks @ [] \<and>
       processArguments_loop p' toks ri h = (True, rs, hf) \<and>
       scan_stops p' toks [] rs hf \<and>
       rf = rs\<lparr>errorMessage := errorMessage rf\<rparr> \<and>
       processArguments p' [] rs hf = (False, rf, hf)"
      using l True hh by simp
    then show ?thesis by blast
  next
    case False
    with l pa have "processArguments_loop p' toks ri h = (False, rf, hf)"
      by (auto simp: processArguments_def)
    from loop_failed_at[OF this]
    obtain pre suf rs where "toks = pre @ suf"
      "processArguments_loop p' pre ri h = (True, rs, hf)"
      "scan_stops p' pre suf rs hf"
      "rf = rs\<lparr>errorMessage := errorMessage rf\<rparr>"
      "processArguments_loop p' suf rs hf = (False, rf, hf)"
      by blast
    then have "toks = pre @ suf \<and>
       processArguments_loop p' pre ri h = (True, rs, hf) \<and>
       scan_stops p' pre suf rs hf \<and>
       rf = rs\<lparr>errorMessage := errorMessage rf\<rparr> \<and>
       processArguments p' suf rs hf = (False, rf, hf)"
      by (simp add: processArguments_loop_failed)
    then show ?thesis by blast
  qed
qed

theorem parse_failure_keeps_progress_witness:
  "parse demo_subs [''pixl'', ''-out'', ''a.png'', ''-verbose'', ''-bogus''] demo_parser
     CliParserResult_new demo_args =
     Some (False, demo_parser,
           CliParserResult_new\<lparr>res_args := [1, 2], errorMessage := ''Unkown argument bogus''\<rparr>,
           demo_args(1 := (demo_args 1)\<lparr>param := ''a.png''\<rparr>)) \<and>
   processArguments_loop demo_parser [''-out'', ''a.png'', ''-verbose''] CliParserResult_new
     demo_args =
     (True, CliParserResult_new\<lparr>res_args := [1, 2]\<rparr>,
      demo_args(1 := (demo_args 1)\<lparr>param := ''a.png''\<rparr>)) \<and>
   scan_stops demo_parser [''-out'', ''a.png'', ''-verbose''] [''-bogus'']
     (CliParserResult_new\<lparr>res_args := [1, 2]\<rparr>)
     (demo_args(1 := (demo_args 1)\<lparr>param := ''a.png''\<rparr>)) \<and>
   (\<exists>m. parse demo_subs [''pixl'', ''-out'', ''a.png'', ''-verbose'', ''-bogus''] demo_parser
      CliParserResult_new demo_args =
      Some (False, demo_parser, CliParserResult_new\<lparr>res_args := [1, 2], errorMessage := m\<rparr>,
            demo_args(1 := (demo_args 1)\<lparr>param := ''a.png''\<rparr>))) \<and>
   (\<exists>pre suf rs.
      [''-out'', ''a.png'', ''-verbose'', ''-bogus''] = pre @ suf \<and>
      processArguments_loop demo_parser pre CliParserResult_new demo_args =
        (True, rs, demo_args(1 := (demo_args 1)\<lparr>param := ''a.png''\<rparr>)) \<and>
      scan_stops demo_parser pre suf rs (demo_args(1 := (demo_args 1)\<lparr>param := ''a.png''\<rparr>)) \<and>
      CliParserResult_new\<lparr>res_args := [1, 2], errorMessage := ''Unkown argument bogus''\<rparr> =
        rs\<lparr>errorMessage := ''Unkown argument bogus''\<rparr>)"
proof -
  let ?argv = "[''pixl'', ''-out'', ''a.png'', ''-verbose'', ''-bogus'']"
  let ?pre = "[''-out'', ''a.png'', ''-verbose'']"
  let ?rs = "CliParserResult_new\<lparr>res_args := [1, 2]\<rparr>"
  let ?rf = "CliParserResult_new\<lparr>res_args := [1, 2], errorMessage := ''Unkown argument bogus''\<rparr>"
  let ?hf = "demo_args(1 := (demo_args 1)\<lparr>param := ''a.png''\<rparr>)"
  have len: "2 \<le> length ?argv" by simp
  have dis: "dispatch demo_subs ?argv demo_parser CliParserResult_new =
      (demo_parser, ?pre @ [''-bogus''], CliParserResult_new)"
    by (simp add: dispatch_def run_defs demo_defs)
  have run: "parse demo_subs ?argv demo_parser CliParserResult_new demo_args =
      Some (False, demo_parser, ?rf, ?hf)"
    by (simp add: run_defs demo_defs)
  have pre: "processArguments_loop demo_parser ?pre CliParserResult_new demo_args =
      (True, ?rs, ?hf)"
    by (simp add: run_defs demo_defs)
  have stops: "scan_stops demo_parser ?pre [''-bogus''] ?rs ?hf"
    by (simp add: scan_stops_def run_defs demo_defs)
  have em: "errorMessage ?rf = ''Unkown argument bogus''" by simp
  note both = parse_failure_keeps_progress[OF len dis, of demo_args]
  from both pre stops
  have 1: "\<exists>m. parse demo_subs ?argv demo_parser CliParserResult_new demo_args =
      Some (False, demo_parser, ?rs\<lparr>errorMessage := m\<rparr>, ?hf)"
    by blast
  from both run
  have 2: "\<exists>pre suf rs. ?pre @ [''-bogus''] = pre @ suf \<and>
      processArguments_loop demo_parser pre CliParserResult_new demo_args = (True, rs, ?hf) \<and>
      scan_stops demo_parser pre suf rs ?hf \<and>
      ?rf = rs\<lparr>errorMessage := errorMessage ?rf\<rparr>"
    by blast
  from run pre stops 1 2 show ?thesis unfolding em by simp
qed

end
